theory Spec2Isabelle
  imports Main "HOL-Library.Sublist" "HOL-Library.Multiset"
begin

section \<open>Strings and the platform path functions\<close>

text \<open>
  JavaScript strings are modelled as \<open>string\<close> (a list of characters). The separator
  of the POSIX path functions is the character \<open>/\<close>.
\<close>

definition sep :: char where
  "sep = CHR ''/''"

text \<open>\<^verbatim>\<open>s.split("/")\<close>: always at least one piece; the empty string gives one empty piece.\<close>

fun split_sep :: "string \<Rightarrow> string list" where
  "split_sep [] = [[]]"
| "split_sep (c # cs) =
     (if c = sep then [] # split_sep cs
      else (c # hd (split_sep cs)) # tl (split_sep cs))"

text \<open>\<^verbatim>\<open>xs.join("/")\<close>.\<close>

fun join_sep :: "string list \<Rightarrow> string" where
  "join_sep [] = []"
| "join_sep [x] = x"
| "join_sep (x # y # ys) = x @ sep # join_sep (y # ys)"

text \<open>\<^verbatim>\<open>xs.filter(x => x)\<close> on an array of strings: the empty string is the only falsy one.\<close>

definition truthy :: "string list \<Rightarrow> string list" where
  "truthy xs = filter (\<lambda>x. x \<noteq> []) xs"

text \<open>
  Modelled from the spec: \<^verbatim>\<open>node:path\<close> is the platform's path library and is not part of
  the repository. \<open>normalizeString\<close> and \<open>normalize\<close> follow the POSIX variant of
  \<^verbatim>\<open>path.normalize\<close> (the spec's "canonical collapsing of ., .. and duplicate separators
  per platform path rules"): empty and \<open>.\<close> segments are dropped, a \<open>..\<close> segment removes
  the segment before it (and is dropped at the root of an absolute path), and a
  trailing separator of the input is kept. The accumulator holds the segments kept
  so far, the most recent one first.
\<close>

fun normalizeString :: "bool \<Rightarrow> string list \<Rightarrow> string list \<Rightarrow> string list" where
  "normalizeString allowAboveRoot [] res = rev res"
| "normalizeString allowAboveRoot (seg # segs) res =
     (if seg = [] \<or> seg = ''.'' then normalizeString allowAboveRoot segs res
      else if seg = ''..'' then
        (if res \<noteq> [] \<and> hd res \<noteq> ''..'' then normalizeString allowAboveRoot segs (tl res)
         else if allowAboveRoot then normalizeString allowAboveRoot segs (''..'' # res)
         else normalizeString allowAboveRoot segs res)
      else normalizeString allowAboveRoot segs (seg # res))"

definition normalize :: "string \<Rightarrow> string" where
  "normalize path =
     (if path = [] then ''.''
      else
        let isAbsolute = (hd path = sep);
            trailingSeparator = (last path = sep);
            p = join_sep (normalizeString (\<not> isAbsolute) (split_sep path) [])
        in if p = [] then (if isAbsolute then ''/'' else if trailingSeparator then ''./'' else ''.'')
           else (if isAbsolute then [sep] else []) @ p @ (if trailingSeparator then [sep] else []))"

text \<open>
  Modelled from the spec: \<^verbatim>\<open>path.dirname\<close> of \<^verbatim>\<open>node:path\<close> (POSIX), which the spec's
  \<open>parent\<close> ("strips the last path component") relies on. Scanning from the end down
  to index 1 it skips trailing separators, then the last component, and cuts at the
  separator before it.
\<close>

definition dirname :: "string \<Rightarrow> string" where
  "dirname path =
     (if path = [] then ''.''
      else
        let hasRoot = (hd path = sep);
            r = dropWhile (\<lambda>c. c \<noteq> sep) (dropWhile (\<lambda>c. c = sep) (rev (tl path)));
            end = length r
        in if r = [] then (if hasRoot then ''/'' else ''.'')
           else if hasRoot \<and> end = 1 then ''//''
           else take end path)"

text \<open>
  Modelled from the spec: \<^verbatim>\<open>path.basename\<close> of \<^verbatim>\<open>node:path\<close> (POSIX) without a suffix
  argument: the last component, trailing separators ignored.
\<close>

definition basename_str :: "string \<Rightarrow> string" where
  "basename_str path =
     rev (takeWhile (\<lambda>c. c \<noteq> sep) (dropWhile (\<lambda>c. c = sep) (rev path)))"

section \<open>Errors\<close>

text \<open>
  Every \<^verbatim>\<open>throw\<close> of the source is a value. \<open>InvalidPath\<close> is the constructor's
  \<^verbatim>\<open>invalid absolute path\<close> error, \<open>UnsupportedArch\<close> the one of \<^verbatim>\<open>host\<close>; both are plain
  \<^verbatim>\<open>Error\<close> objects without a \<^verbatim>\<open>code\<close>. An error raised by a filesystem call carries its
  \<^verbatim>\<open>code\<close>.
\<close>

datatype error =
    InvalidPath string
  | UnsupportedArch string
  | OsError string

text \<open>\<^verbatim>\<open>err.code\<close>: \<^verbatim>\<open>undefined\<close> on an error that has none.\<close>

fun code :: "error \<Rightarrow> string option" where
  "code (OsError c) = Some c"
| "code e = None"

section \<open>Path\<close>

datatype Path = Path (string: string)

text \<open>The constructor applied to a string, and to another Path.\<close>

definition new_Path :: "string \<Rightarrow> error + Path" where
  "new_Path input =
     (if input = [] \<or> hd input \<noteq> sep then Inl (InvalidPath input)
      else Inr (Path (normalize input)))"


definition Path_abs :: "string \<Rightarrow> Path option" where
  "Path_abs input = (case new_Path input of Inl e \<Rightarrow> None | Inr p \<Rightarrow> Some p)"

definition root :: Path where
  "root = Path ''/''"

definition parent :: "Path \<Rightarrow> error + Path" where
  "parent p = new_Path (dirname (string p))"

definition toString :: "Path \<Rightarrow> string" where
  "toString p = string p"

definition join :: "Path \<Rightarrow> string list \<Rightarrow> error + Path" where
  "join p components =
     (let joined = join_sep (truthy components)
      in if joined \<noteq> [] \<and> hd joined = sep then new_Path joined
         else if joined \<noteq> [] then new_Path (string p @ sep # joined)
         else Inr p)"

definition components :: "Path \<Rightarrow> string list" where
  "components p = split_sep (string p)"

definition basename :: "Path \<Rightarrow> string" where
  "basename p = basename_str (string p)"



section \<open>host\<close>

record HostReturnValue =
  platform :: string
  arch :: string
  target :: string
  build_ids :: "string \<times> string"

definition supported_platforms :: "string list" where
  "supported_platforms =
     [''darwin'', ''linux'', ''win32'', ''freebsd'', ''netbsd'', ''aix'', ''sunos'']"

definition host_arch :: "string \<Rightarrow> error + string" where
  "host_arch process_arch =
     (if process_arch = ''x64'' then Inr ''x86-64''
      else if process_arch = ''arm64'' then Inr ''aarch64''
      else Inl (UnsupportedArch process_arch))"

definition host_platform :: "string \<Rightarrow> string" where
  "host_platform process_platform =
     (if process_platform \<in> set supported_platforms then process_platform else ''linux'')"

text \<open>
  \<^verbatim>\<open>host()\<close> reads \<^verbatim>\<open>process.arch\<close> and \<^verbatim>\<open>process.platform\<close>; they are its arguments here.
  The warning printed on the fallback to \<open>linux\<close> is not part of the result.
\<close>

definition host :: "string \<Rightarrow> string \<Rightarrow> error + HostReturnValue" where
  "host process_arch process_platform =
     (case host_arch process_arch of
        Inl e \<Rightarrow> Inl e
      | Inr a \<Rightarrow>
          let p = host_platform process_platform
          in Inr \<lparr> platform = p, arch = a, target = p @ ''-'' @ a, build_ids = (p, a) \<rparr>)"

section \<open>Representation of normalized paths\<close>

text \<open>
  A segment that survives normalization: not empty, no separator in it, and neither
  \<open>.\<close> nor \<open>..\<close>.
\<close>

definition valid_seg :: "string \<Rightarrow> bool" where
  "valid_seg x = (x \<noteq> [] \<and> sep \<notin> set x \<and> x \<noteq> ''.'' \<and> x \<noteq> ''..'')"

text \<open>
  The string of an absolute path with segments \<open>ns\<close>, with a trailing separator when
  \<open>t\<close> holds and there is a segment at all.
\<close>

definition canon :: "string list \<Rightarrow> bool \<Rightarrow> string" where
  "canon ns t = sep # join_sep ns @ (if t \<and> ns \<noteq> [] then [sep] else [])"


section \<open>relative\<close>

text \<open>
  \<^verbatim>\<open>a[0] == b[0]\<close> on arrays of strings: reading past the end gives \<^verbatim>\<open>undefined\<close>, which
  equals only \<^verbatim>\<open>undefined\<close>.
\<close>

fun head_eq :: "string list \<Rightarrow> string list \<Rightarrow> bool" where
  "head_eq [] [] = True"
| "head_eq (x # xs) (y # ys) = (x = y)"
| "head_eq xs ys = False"

text \<open>
  The \<^verbatim>\<open>while\<close> loop of \<^verbatim>\<open>relative\<close>; \<^verbatim>\<open>shift()\<close> on an empty array leaves it empty. The
  loop does not end when both arrays run empty together: that is the value \<open>None\<close>.
\<close>

partial_function (option) strip_common ::
  "string list \<Rightarrow> string list \<Rightarrow> (string list \<times> string list) option" where
  "strip_common newPathComps newBaseComps =
     (if head_eq newPathComps newBaseComps
      then strip_common (tl newPathComps) (tl newBaseComps)
      else Some (newPathComps, newBaseComps))"

declare strip_common.simps [code]

text \<open>\<^verbatim>\<open>this.relative({to: base})\<close>; \<open>None\<close> when the loop does not end.\<close>

definition relative :: "Path \<Rightarrow> Path \<Rightarrow> string option" where
  "relative p base =
     (let pathComps = ''/'' # truthy (split_sep (string p));
          baseComps = ''/'' # truthy (split_sep (string base))
      in if prefix (string base) (string p)
         then Some (join_sep (drop (length baseComps) pathComps))
         else (case strip_common pathComps baseComps of
                 None \<Rightarrow> None
               | Some (newPathComps, newBaseComps) \<Rightarrow>
                   Some (join_sep (replicate (length newBaseComps) ''..'' @ newPathComps))))"

section \<open>The filesystem\<close>

text \<open>
  Modelled from the spec: the platform's filesystem (section 6 of the specification,
  "the platform's filesystem contract, POSIX-flavored") is not part of the
  repository. The state is a map from absolute, normalized path strings without a
  trailing separator to the entry there: a file with its content, a directory, or a
  symbolic link with its target. Each call of \<^verbatim>\<open>node:fs\<close> that the claims need is a
  function on this state that returns the new state or the error the call raises.
\<close>

datatype entry = File string | Dir | Symlink string

type_synonym fs = "string \<Rightarrow> entry option"

text \<open>The path \<open>q\<close> is \<open>d\<close> itself or lies below the directory \<open>d\<close>.\<close>

definition under :: "string \<Rightarrow> string \<Rightarrow> bool" where
  "under d q = (q = d \<or> prefix (if d = ''/'' then d else d @ [sep]) q)"

text \<open>The target of a symbolic link at \<open>p\<close>, relative to the directory that holds the link.\<close>

definition resolve_link :: "string \<Rightarrow> string \<Rightarrow> string" where
  "resolve_link p t =
     (if t \<noteq> [] \<and> hd t = sep then normalize t else normalize (dirname p @ sep # t))"

text \<open>\<^verbatim>\<open>stat\<close> follows symbolic links, and gives up after 40 of them as Linux does.\<close>

fun stat_hops :: "nat \<Rightarrow> fs \<Rightarrow> string \<Rightarrow> error + entry" where
  "stat_hops 0 fs p = Inl (OsError ''ELOOP'')"
| "stat_hops (Suc n) fs p =
     (case fs p of
        None \<Rightarrow> Inl (OsError ''ENOENT'')
      | Some (Symlink t) \<Rightarrow> stat_hops n fs (resolve_link p t)
      | Some e \<Rightarrow> Inr e)"

definition statSync :: "fs \<Rightarrow> string \<Rightarrow> error + entry" where
  "statSync fs p = stat_hops 40 fs p"


definition unlinkSync :: "fs \<Rightarrow> string \<Rightarrow> error + fs" where
  "unlinkSync fs p =
     (case fs p of
        None \<Rightarrow> Inl (OsError ''ENOENT'')
      | Some Dir \<Rightarrow> Inl (OsError ''EISDIR'')
      | Some e \<Rightarrow> Inr (fs(p := None)))"

text \<open>
  \<^verbatim>\<open>rename\<close> replaces an existing destination: a file by a file or a link, an empty
  directory by a directory. What lies below the source moves with it.
\<close>

definition moved :: "fs \<Rightarrow> string \<Rightarrow> string \<Rightarrow> fs" where
  "moved fs old new =
     (\<lambda>q. if under new q then fs (old @ drop (length new) q)
          else if under old q then None
          else fs q)"

definition renameSync :: "fs \<Rightarrow> string \<Rightarrow> string \<Rightarrow> error + fs" where
  "renameSync fs old new =
     (case fs old of
        None \<Rightarrow> Inl (OsError ''ENOENT'')
      | Some e \<Rightarrow>
          if old = new then Inr fs
          else if under old new then Inl (OsError ''EINVAL'')
          else (case statSync fs (dirname new) of
                  Inl err \<Rightarrow> Inl (OsError ''ENOENT'')
                | Inr (File c) \<Rightarrow> Inl (OsError ''ENOTDIR'')
                | Inr d \<Rightarrow>
                    (case fs new of
                       None \<Rightarrow> Inr (moved fs old new)
                     | Some Dir \<Rightarrow>
                         if e = Dir then Inr (moved fs old new) else Inl (OsError ''EISDIR'')
                     | Some e' \<Rightarrow>
                         if e = Dir then Inl (OsError ''ENOTDIR'') else Inr (moved fs old new))))"


text \<open>The directories from the root down to \<open>p\<close>, the root left out.\<close>

definition ancestors :: "string \<Rightarrow> string list" where
  "ancestors p =
     (let segs = truthy (split_sep p)
      in map (\<lambda>k. canon (take k segs) False) [1 ..< Suc (length segs)])"

fun mkdir_all :: "fs \<Rightarrow> string list \<Rightarrow> error + fs" where
  "mkdir_all fs [] = Inr fs"
| "mkdir_all fs (d # ds) =
     (case statSync fs d of
        Inr Dir \<Rightarrow> mkdir_all fs ds
      | Inr e \<Rightarrow> Inl (OsError (if ds = [] then ''EEXIST'' else ''ENOTDIR''))
      | Inl err \<Rightarrow>
          if fs d = None then mkdir_all (fs(d \<mapsto> Dir)) ds else Inl (OsError ''EEXIST''))"

definition mkdirSync :: "fs \<Rightarrow> string \<Rightarrow> bool \<Rightarrow> error + fs" where
  "mkdirSync fs p recursive =
     (if recursive then mkdir_all fs (ancestors p)
      else if fs p \<noteq> None then Inl (OsError ''EEXIST'')
      else (case statSync fs (dirname p) of
              Inr Dir \<Rightarrow> Inr (fs(p \<mapsto> Dir))
            | Inr e \<Rightarrow> Inl (OsError ''ENOTDIR'')
            | Inl err \<Rightarrow> Inl (OsError ''ENOENT'')))"

text \<open>
  \<^verbatim>\<open>fs.mkdtempSync(prefix)\<close> appends six characters of its own choice to the prefix and
  creates that directory. The characters chosen are the argument \<open>random_chars\<close>.
\<close>

definition mkdtempSync :: "fs \<Rightarrow> string \<Rightarrow> string \<Rightarrow> error + (fs \<times> string)" where
  "mkdtempSync fs random_chars prefix_str =
     (let p = prefix_str @ random_chars
      in if fs p \<noteq> None then Inl (OsError ''EEXIST'')
         else (case statSync fs (dirname p) of
                 Inr Dir \<Rightarrow> Inr (fs(p \<mapsto> Dir), p)
               | Inr e \<Rightarrow> Inl (OsError ''ENOTDIR'')
               | Inl err \<Rightarrow> Inl (OsError ''ENOENT'')))"

section \<open>Queries\<close>

definition exists :: "fs \<Rightarrow> Path \<Rightarrow> Path option" where
  "exists fs p = (case statSync fs (string p) of Inl err \<Rightarrow> None | Inr e \<Rightarrow> Some p)"

definition isDirectory :: "fs \<Rightarrow> Path \<Rightarrow> Path option" where
  "isDirectory fs p =
     (case statSync fs (string p) of Inr Dir \<Rightarrow> Some p | Inr e \<Rightarrow> None | Inl err \<Rightarrow> None)"



section \<open>Mutating operations\<close>

datatype mv_opts = To Path | Into Path

text \<open>\<^verbatim>\<open>mv({to, force})\<close> and \<^verbatim>\<open>mv({into, force})\<close>; an absent \<open>force\<close> is \<open>False\<close>.\<close>

definition mv_to :: "fs \<Rightarrow> Path \<Rightarrow> Path \<Rightarrow> bool \<Rightarrow> error + (fs \<times> Path)" where
  "mv_to fs p dst force =
     (case (if exists fs dst \<noteq> None \<and> force then unlinkSync fs (string dst) else Inr fs) of
        Inl err \<Rightarrow> Inl err
      | Inr fs1 \<Rightarrow>
          (case renameSync fs1 (string p) (string dst) of
             Inl err \<Rightarrow> Inl err
           | Inr fs2 \<Rightarrow> Inr (fs2, dst)))"

definition mv :: "fs \<Rightarrow> Path \<Rightarrow> mv_opts \<Rightarrow> bool \<Rightarrow> error + (fs \<times> Path)" where
  "mv fs p opts force =
     (case opts of
        To to \<Rightarrow> mv_to fs p to force
      | Into into \<Rightarrow>
          (case join into [basename p] of
             Inl err \<Rightarrow> Inl err
           | Inr dst \<Rightarrow> mv_to fs p dst force))"


text \<open>\<^verbatim>\<open>mkdir(opts)\<close>; \<open>p_opt\<close> says that \<open>opts\<close> is \<^verbatim>\<open>'p'\<close>.\<close>

definition mkdir :: "fs \<Rightarrow> Path \<Rightarrow> bool \<Rightarrow> error + (fs \<times> Path)" where
  "mkdir fs p p_opt =
     (if isDirectory fs p = None then
        (case mkdirSync fs (string p) p_opt of
           Inl err \<Rightarrow> Inl err
         | Inr fs' \<Rightarrow> Inr (fs', p))
      else Inr (fs, p))"

record mktemp_opts =
  prefix_opt :: "string option"
  dir_opt :: "Path option"

text \<open>
  \<^verbatim>\<open>mktemp\<close>. In \<^verbatim>\<open>dir?.mkdir('p').string ?? '' + prefix\<close> the operator \<^verbatim>\<open>+\<close> binds tighter
  than \<^verbatim>\<open>??\<close>: with a \<open>dir\<close> the input is the directory's string alone, without one it
  is \<^verbatim>\<open>'' + prefix\<close>, the text \<^verbatim>\<open>undefined\<close> when there is no prefix.
\<close>

definition mktemp :: "fs \<Rightarrow> string \<Rightarrow> mktemp_opts \<Rightarrow> error + (fs \<times> Path)" where
  "mktemp fs random_chars opts =
     (case (case dir_opt opts of
              Some dir \<Rightarrow>
                (case mkdir fs dir True of
                   Inl err \<Rightarrow> Inl err
                 | Inr (fs', d) \<Rightarrow> Inr (fs', string d))
            | None \<Rightarrow>
                Inr (fs, (case prefix_opt opts of None \<Rightarrow> ''undefined'' | Some x \<Rightarrow> x))) of
        Inl err \<Rightarrow> Inl err
      | Inr (fs1, input) \<Rightarrow>
          (case mkdtempSync fs1 random_chars input of
             Inl err \<Rightarrow> Inl err
           | Inr (fs2, rv) \<Rightarrow>
               (case new_Path rv of
                  Inl err \<Rightarrow> Inl err
                | Inr q \<Rightarrow> Inr (fs2, q))))"

section \<open>Walking a directory\<close>

datatype kind = KFile | KDir | KSymlink | KOther

datatype Dirent = Dirent (name: string) (kind: kind)

definition isDirectory_entry :: "Dirent \<Rightarrow> bool" where
  "isDirectory_entry entry = (kind entry = KDir)"

text \<open>
  The body of the \<^verbatim>\<open>for await\<close> loop of \<^verbatim>\<open>walk\<close>, run over the entries of one directory:
  each entry is yielded (appended to \<open>out\<close>), a directory is pushed. The stack is a
  list whose head is the end of the array, where \<^verbatim>\<open>push\<close> and \<^verbatim>\<open>pop\<close> work. The name of
  a directory entry is always a string, so \<^verbatim>\<open>entry.name ?? panic()\<close> is the name.
\<close>

fun walk_dir ::
  "Path \<Rightarrow> Dirent list \<Rightarrow> Path list \<Rightarrow> (Path \<times> Dirent) list
     \<Rightarrow> Path list \<times> (Path \<times> Dirent) list \<times> error option" where
  "walk_dir dir [] stack out = (stack, out, None)"
| "walk_dir dir (entry # rest) stack out =
     (case join dir [name entry] of
        Inl err \<Rightarrow> (stack, out, Some err)
      | Inr path \<Rightarrow>
          walk_dir dir rest (if isDirectory_entry entry then path # stack else stack)
            (out @ [(path, entry)]))"

text \<open>
  The \<^verbatim>\<open>while\<close> loop of \<^verbatim>\<open>walk\<close>. \<open>opendir\<close> is the platform's listing of a directory. The
  result is what was yielded, and the error that ended the iteration if one did;
  \<open>None\<close> when the loop does not end.
\<close>

partial_function (option) walk_loop ::
  "(string \<Rightarrow> error + Dirent list) \<Rightarrow> Path list \<Rightarrow> (Path \<times> Dirent) list
     \<Rightarrow> ((Path \<times> Dirent) list \<times> error option) option" where
  "walk_loop opendir stack out =
     (case stack of
        [] \<Rightarrow> Some (out, None)
      | dir # stack' \<Rightarrow>
          (case opendir (string dir) of
             Inl err \<Rightarrow> Some (out, Some err)
           | Inr entries \<Rightarrow>
               (case walk_dir dir entries stack' out of
                  (stack'', out', Some err) \<Rightarrow> Some (out', Some err)
                | (stack'', out', None) \<Rightarrow> walk_loop opendir stack'' out')))"

declare walk_loop.simps [code]

definition walk ::
  "(string \<Rightarrow> error + Dirent list) \<Rightarrow> Path \<Rightarrow> ((Path \<times> Dirent) list \<times> error option) option" where
  "walk opendir p = walk_loop opendir [p] []"

section \<open>A filesystem that is a finite tree\<close>

text \<open>
  A finite directory tree: a file, or a directory with its named children. \<open>lookup\<close>
  finds the node at a list of segments, and \<open>opendir_of\<close> is the platform's
  directory listing when the filesystem is the tree \<open>t\<close>, mounted at the root.
\<close>

datatype node = FileNode | DirNode "(string \<times> node) list"

fun kind_of :: "node \<Rightarrow> kind" where
  "kind_of FileNode = KFile"
| "kind_of (DirNode ch) = KDir"

fun lookup :: "node \<Rightarrow> string list \<Rightarrow> node option" where
  "lookup n [] = Some n"
| "lookup FileNode (s # ss) = None"
| "lookup (DirNode ch) (s # ss) = (case map_of ch s of None \<Rightarrow> None | Some c \<Rightarrow> lookup c ss)"

definition dirent_of :: "string \<times> node \<Rightarrow> Dirent" where
  "dirent_of = (\<lambda>(n, c). Dirent n (kind_of c))"

definition opendir_of :: "node \<Rightarrow> string \<Rightarrow> error + Dirent list" where
  "opendir_of t path =
     (case lookup t (truthy (split_sep path)) of
        None \<Rightarrow> Inl (OsError ''ENOENT'')
      | Some FileNode \<Rightarrow> Inl (OsError ''ENOTDIR'')
      | Some (DirNode ch) \<Rightarrow> Inr (map dirent_of ch))"

text \<open>
  In a well-formed tree the names in a directory are distinct, and each is a valid
  segment (not empty, without separator, neither \<open>.\<close> nor \<open>..\<close>).
\<close>

fun wf_node :: "node \<Rightarrow> bool" and wf_children :: "(string \<times> node) list \<Rightarrow> bool" where
  "wf_node FileNode = True"
| "wf_node (DirNode ch) = wf_children ch"
| "wf_children [] = True"
| "wf_children ((n, c) # ch) = (valid_seg n \<and> n \<notin> fst ` set ch \<and> wf_node c \<and> wf_children ch)"

text \<open>The numbers of files and of directories strictly below a node.\<close>

fun files_below :: "node \<Rightarrow> nat" and files_list :: "(string \<times> node) list \<Rightarrow> nat" where
  "files_below FileNode = 0"
| "files_below (DirNode ch) = files_list ch"
| "files_list [] = 0"
| "files_list ((n, c) # ch) = (if c = FileNode then 1 else 0) + files_below c + files_list ch"

fun dirs_below :: "node \<Rightarrow> nat" and dirs_list :: "(string \<times> node) list \<Rightarrow> nat" where
  "dirs_below FileNode = 0"
| "dirs_below (DirNode ch) = dirs_list ch"
| "dirs_list [] = 0"
| "dirs_list ((n, c) # ch) = (if c = FileNode then 0 else 1) + dirs_below c + dirs_list ch"

text \<open>
  All entries strictly below the node at the segments \<open>cs\<close>, each with its path and
  its directory entry.
\<close>

fun below :: "string list \<Rightarrow> node \<Rightarrow> (Path \<times> Dirent) list"
  and below_list :: "string list \<Rightarrow> (string \<times> node) list \<Rightarrow> (Path \<times> Dirent) list" where
  "below cs FileNode = []"
| "below cs (DirNode ch) = below_list cs ch"
| "below_list cs [] = []"
| "below_list cs ((n, c) # ch) =
     (Path (canon (cs @ [n]) False), Dirent n (kind_of c)) # below (cs @ [n]) c @ below_list cs ch"

text \<open>The measure of the traversal, and the child directories that one step pushes.\<close>

fun weight :: "node \<Rightarrow> nat" and weight_list :: "(string \<times> node) list \<Rightarrow> nat" where
  "weight FileNode = 1"
| "weight (DirNode ch) = Suc (weight_list ch)"
| "weight_list [] = 0"
| "weight_list ((n, c) # ch) = weight c + weight_list ch"

fun pushes :: "string list \<Rightarrow> (string \<times> node) list \<Rightarrow> (string list \<times> node) list" where
  "pushes cs [] = []"
| "pushes cs ((n, c) # ch) = (if c = FileNode then pushes cs ch else (cs @ [n], c) # pushes cs ch)"

definition entry_of :: "string list \<Rightarrow> string \<times> node \<Rightarrow> Path \<times> Dirent" where
  "entry_of cs = (\<lambda>(n, c). (Path (canon (cs @ [n]) False), Dirent n (kind_of c)))"

definition path_of :: "string list \<times> node \<Rightarrow> Path" where
  "path_of = (\<lambda>(cs, n). Path (canon cs False))"

text \<open>A stack item of the traversal: a directory of the tree \<open>t\<close> at valid segments.\<close>

definition good :: "node \<Rightarrow> string list \<times> node \<Rightarrow> bool" where
  "good t = (\<lambda>(cs, n). list_all valid_seg cs \<and> lookup t cs = Some n \<and> wf_node n \<and> n \<noteq> FileNode)"

section \<open>Path values a program can hold\<close>





section \<open>Lemmas on splitting, joining and normalizing\<close>

lemma split_sep_not_Nil [simp]: "split_sep s \<noteq> []"
  by (induction s) auto

lemma split_sep_no_sep: "x \<in> set (split_sep s) \<Longrightarrow> sep \<notin> set x"
proof (induction s arbitrary: x)
  case Nil
  then show ?case by simp
next
  case (Cons c cs)
  show ?case
  proof (cases "c = sep")
    case True
    with Cons show ?thesis by auto
  next
    case False
    obtain w ws where sp: "split_sep cs = w # ws"
      by (cases "split_sep cs") auto
    with Cons False show ?thesis by auto
  qed
qed

lemma split_sep_append: "split_sep (a @ sep # b) = split_sep a @ split_sep b"
proof (induction a)
  case Nil
  then show ?case by simp
next
  case (Cons c cs)
  obtain w ws where sp: "split_sep cs = w # ws"
    by (cases "split_sep cs") auto
  with Cons show ?case by simp
qed

lemma split_sep_plain: "sep \<notin> set x \<Longrightarrow> split_sep x = [x]"
  by (induction x) auto


lemma join_split [simp]: "join_sep (split_sep s) = s"
proof (induction s)
  case Nil
  then show ?case by simp
next
  case (Cons c cs)
  obtain w ws where sp: "split_sep cs = w # ws"
    by (cases "split_sep cs") auto
  with Cons show ?case by (cases ws) auto
qed

lemma split_join: "xs \<noteq> [] \<Longrightarrow> list_all (\<lambda>x. sep \<notin> set x) xs \<Longrightarrow> split_sep (join_sep xs) = xs"
proof (induction xs rule: join_sep.induct)
  case 1
  then show ?case by simp
next
  case (2 x)
  then show ?case by (simp add: split_sep_plain)
next
  case (3 x y ys)
  then show ?case by (simp add: split_sep_append split_sep_plain)
qed


lemma join_sep_eq_Nil: "list_all (\<lambda>x. x \<noteq> []) xs \<Longrightarrow> (join_sep xs = []) = (xs = [])"
  by (induction xs rule: join_sep.induct) auto

lemma normalizeString_valid:
  "list_all valid_seg segs \<Longrightarrow> normalizeString b segs res = rev res @ segs"
  by (induction segs arbitrary: res) (auto simp: valid_seg_def)

lemma normalizeString_skip:
  "normalizeString b (filter (\<lambda>x. x \<noteq> [] \<and> x \<noteq> ''.'') segs) res = normalizeString b segs res"
  by (induction segs arbitrary: res) auto

lemma normalizeString_abs_valid:
  "list_all (\<lambda>x. sep \<notin> set x) segs \<Longrightarrow> list_all valid_seg res \<Longrightarrow>
   list_all valid_seg (normalizeString False segs res)"
proof (induction segs arbitrary: res)
  case Nil
  then show ?case by (simp add: list_all_iff)
next
  case (Cons s segs)
  then show ?case by (cases res) (auto simp: valid_seg_def)
qed


lemma valid_seg_last: "valid_seg x \<Longrightarrow> last x \<noteq> sep"
proof
  assume v: "valid_seg x" and l: "last x = sep"
  from v have "x \<noteq> []" by (simp add: valid_seg_def)
  then have "last x \<in> set x" by (rule last_in_set)
  with v l show False by (simp add: valid_seg_def)
qed

lemma valid_seg_hd: "valid_seg x \<Longrightarrow> hd x \<noteq> sep"
  by (cases x) (auto simp: valid_seg_def)

lemma join_sep_valid_Nil: "list_all valid_seg ns \<Longrightarrow> (join_sep ns = []) = (ns = [])"
  by (induction ns rule: join_sep.induct) (auto simp: valid_seg_def)

lemma last_join_sep: "ns \<noteq> [] \<Longrightarrow> list_all valid_seg ns \<Longrightarrow> last (join_sep ns) = last (last ns)"
  by (induction ns rule: join_sep.induct) (auto simp: valid_seg_def join_sep_valid_Nil)


lemma valid_no_sep: "list_all valid_seg ns \<Longrightarrow> list_all (\<lambda>x. sep \<notin> set x) ns"
  by (induction ns) (auto simp: valid_seg_def)

lemma normalize_abs:
  assumes "s \<noteq> []" "hd s = sep"
  shows "normalize s = canon (normalizeString False (split_sep s) []) (last s = sep)"
proof -
  let ?ns = "normalizeString False (split_sep s) []"
  have "list_all (\<lambda>x. sep \<notin> set x) (split_sep s)"
    by (simp add: list_all_iff split_sep_no_sep)
  then have v: "list_all valid_seg ?ns"
    by (rule normalizeString_abs_valid) simp
  show ?thesis
    using assms join_sep_valid_Nil [OF v]
    by (simp add: normalize_def canon_def Let_def sep_def)
qed

lemma canon_split:
  assumes "list_all valid_seg ns"
  shows "split_sep (canon ns t) = [] # (if ns = [] then [[]] else ns @ (if t then [[]] else []))"
proof (cases "ns = []")
  case True
  then show ?thesis by (simp add: canon_def)
next
  case False
  have sj: "split_sep (join_sep ns) = ns"
    using False assms by (simp add: split_join valid_no_sep)
  have "split_sep (join_sep ns @ [sep]) = ns @ [[]]"
    using split_sep_append [of "join_sep ns" "[]"] sj by simp
  with False sj show ?thesis by (simp add: canon_def)
qed

lemma canon_last:
  assumes "list_all valid_seg ns"
  shows "(last (canon ns t) = sep) = (ns = [] \<or> t)"
proof (cases "ns = []")
  case True
  then show ?thesis by (simp add: canon_def)
next
  case False
  then have "last ns \<in> set ns" by simp
  with assms have "valid_seg (last ns)" by (simp add: list_all_iff)
  then have "last (last ns) \<noteq> sep" by (rule valid_seg_last)
  with False assms show ?thesis
    by (simp add: canon_def last_join_sep join_sep_valid_Nil)
qed

lemma normalizeString_canon:
  assumes "list_all valid_seg ns"
  shows "normalizeString False (split_sep (canon ns t)) [] = ns"
proof -
  have "filter (\<lambda>x. x \<noteq> [] \<and> x \<noteq> ''.'') (split_sep (canon ns t)) = ns"
    using assms by (auto simp: canon_split list_all_iff valid_seg_def filter_id_conv)
  then have "normalizeString False (split_sep (canon ns t)) [] = normalizeString False ns []"
    using normalizeString_skip [of False "split_sep (canon ns t)" "[]"] by simp
  with assms show ?thesis by (simp add: normalizeString_valid)
qed

lemma canon_trailing: "canon ns (ns = [] \<or> t) = canon ns t"
  by (auto simp: canon_def)

lemma normalize_canon:
  assumes "list_all valid_seg ns"
  shows "normalize (canon ns t) = canon ns t"
proof -
  have "canon ns t \<noteq> []" "hd (canon ns t) = sep" by (simp_all add: canon_def)
  then have "normalize (canon ns t) = canon (normalizeString False (split_sep (canon ns t)) []) (last (canon ns t) = sep)"
    by (rule normalize_abs)
  with assms show ?thesis
    by (simp add: normalizeString_canon canon_last canon_trailing)
qed














lemma join_sep_nonempty:
  "xs \<noteq> [] \<Longrightarrow> list_all (\<lambda>x. x \<noteq> []) xs \<Longrightarrow>
   join_sep xs \<noteq> [] \<and> hd (join_sep xs) = hd (hd xs) \<and> last (join_sep xs) = last (last xs)"
  by (induction xs rule: join_sep.induct) auto

lemma truthy_all: "list_all (\<lambda>x. x \<noteq> []) (truthy cs)"
  by (simp add: truthy_def list_all_iff)


lemma join_cases:
  "join p cs =
     (if truthy cs = [] then Inr p
      else if hd (hd (truthy cs)) = sep then Inr (Path (normalize (join_sep (truthy cs))))
      else new_Path (string p @ sep # join_sep (truthy cs)))"
proof (cases "truthy cs = []")
  case True
  then show ?thesis by (simp add: join_def)
next
  case False
  with join_sep_nonempty [OF False truthy_all]
  show ?thesis by (auto simp: join_def new_Path_def)
qed




lemma statSync_unfold:
  "statSync fs p =
     (case fs p of
        None \<Rightarrow> Inl (OsError ''ENOENT'')
      | Some (Symlink t) \<Rightarrow> stat_hops 39 fs (resolve_link p t)
      | Some e \<Rightarrow> Inr e)"
proof -
  have "(40::nat) = Suc 39" by simp
  then show ?thesis unfolding statSync_def by (simp only: stat_hops.simps)
qed


lemma exists_plain:
  "fs (string p) = Some e \<Longrightarrow> \<forall>t. e \<noteq> Symlink t \<Longrightarrow> exists fs p = Some p"
  by (cases e) (simp_all add: exists_def statSync_unfold)




section \<open>Lemmas on walking a tree\<close>

lemma truthy_split_canon:
  assumes "list_all valid_seg cs"
  shows "truthy (split_sep (canon cs t)) = cs"
proof -
  have "filter (\<lambda>x. x \<noteq> []) cs = cs"
    using assms by (auto simp: filter_id_conv list_all_iff valid_seg_def)
  then show ?thesis using assms by (simp add: canon_split truthy_def)
qed

lemma canon_inj:
  assumes "list_all valid_seg xs" "list_all valid_seg ys" "canon xs t = canon ys u"
  shows "xs = ys"
proof -
  have "truthy (split_sep (canon xs t)) = truthy (split_sep (canon ys u))"
    using assms(3) by simp
  then show ?thesis using assms(1,2) by (simp add: truthy_split_canon)
qed

lemma join_child:
  assumes cs: "list_all valid_seg cs" and n: "valid_seg n"
  shows "join (Path (canon cs False)) [n] = Inr (Path (canon (cs @ [n]) False))"
proof -
  let ?X = "canon cs False @ sep # n"
  have n': "n \<noteq> []" "hd n \<noteq> sep" "last n \<noteq> sep" "sep \<notin> set n"
    using n by (simp_all add: valid_seg_hd valid_seg_last) (simp_all add: valid_seg_def)
  have X: "?X \<noteq> []" "hd ?X = sep" by (simp_all add: canon_def)
  have v: "list_all valid_seg (cs @ [n])" using cs n by simp
  have "split_sep ?X = split_sep (canon cs False) @ [n]"
    using n' by (simp add: split_sep_append split_sep_plain)
  then have "filter (\<lambda>x. x \<noteq> [] \<and> x \<noteq> ''.'') (split_sep ?X) = cs @ [n]"
    using cs n by (auto simp: canon_split filter_id_conv list_all_iff valid_seg_def)
  then have "normalizeString False (split_sep ?X) [] = normalizeString False (cs @ [n]) []"
    using normalizeString_skip [of False "split_sep ?X" "[]"] by simp
  then have ns: "normalizeString False (split_sep ?X) [] = cs @ [n]"
    using v by (simp add: normalizeString_valid)
  have "last ?X \<noteq> sep" using n' by simp
  then have "normalize ?X = canon (cs @ [n]) False"
    using normalize_abs [OF X] ns by simp
  then have "new_Path ?X = Inr (Path (canon (cs @ [n]) False))"
    using X by (simp add: new_Path_def)
  then show ?thesis using n' by (simp add: join_cases truthy_def)
qed

lemma walk_dir_children:
  assumes "list_all valid_seg cs" "list_all valid_seg (map fst ch)"
  shows "walk_dir (Path (canon cs False)) (map dirent_of ch) stack out
         = (rev (map path_of (pushes cs ch)) @ stack, out @ map (entry_of cs) ch, None)"
  using assms(2)
proof (induction ch arbitrary: stack out)
  case Nil
  then show ?case by simp
next
  case (Cons a ch)
  obtain n c where a: "a = (n, c)" by (cases a)
  with Cons.prems have n: "valid_seg n" and ch: "list_all valid_seg (map fst ch)" by simp_all
  have k: "isDirectory_entry (Dirent n (kind_of c)) = (c \<noteq> FileNode)"
    by (cases c) (simp_all add: isDirectory_entry_def)
  show ?case
    using Cons.IH [OF ch] join_child [OF assms(1) n] k
    by (simp add: a dirent_of_def entry_of_def path_of_def)
qed

lemma lookup_append:
  "lookup t (cs @ ss) = (case lookup t cs of None \<Rightarrow> None | Some m \<Rightarrow> lookup m ss)"
  by (induction t cs rule: lookup.induct) (auto split: option.splits)

lemma wf_children_names: "wf_children ch \<Longrightarrow> list_all valid_seg (map fst ch) \<and> distinct (map fst ch)"
  by (induction ch) force+

lemma wf_children_child: "wf_children ch \<Longrightarrow> (n, c) \<in> set ch \<Longrightarrow> wf_node c \<and> valid_seg n"
  by (induction ch) force+

lemma pushes_set: "set (pushes cs ch) = {(cs @ [n], c) | n c. (n, c) \<in> set ch \<and> c \<noteq> FileNode}"
proof (induction ch)
  case Nil
  then show ?case by simp
next
  case (Cons a ch)
  obtain m d where a: "a = (m, d)" by (cases a)
  show ?case using Cons by (auto simp: a)
qed

lemma good_pushes:
  assumes "good t (cs, DirNode ch)"
  shows "list_all (good t) (pushes cs ch)"
proof -
  from assms have cs: "list_all valid_seg cs" and l: "lookup t cs = Some (DirNode ch)"
    and w: "wf_children ch" by (simp_all add: good_def)
  have "good t (cs @ [n], c)" if "(n, c) \<in> set ch" "c \<noteq> FileNode" for n c
  proof -
    from wf_children_names [OF w] that(1) have "map_of ch n = Some c" by simp
    then have "lookup t (cs @ [n]) = Some c" using l by (simp add: lookup_append)
    then show ?thesis
      using wf_children_child [OF w that(1)] cs that(2) by (simp add: good_def)
  qed
  then show ?thesis by (auto simp: list_all_iff pushes_set)
qed

lemma weight_pushes: "sum_list (map (\<lambda>p. weight (snd p)) (pushes cs ch)) \<le> weight_list ch"
  by (induction ch) auto

lemma below_list_mset:
  "mset (below_list cs ch)
   = mset (map (entry_of cs) ch) + (\<Sum>p\<leftarrow>pushes cs ch. mset (below (fst p) (snd p)))"
proof (induction ch)
  case Nil
  then show ?case by simp
next
  case (Cons a ch)
  obtain n c where a: "a = (n, c)" by (cases a)
  show ?case using Cons by (cases c) (simp_all add: a entry_of_def)
qed

lemma opendir_of_good:
  assumes "good t (cs, DirNode ch)"
  shows "opendir_of t (canon cs False) = Inr (map dirent_of ch)"
  using assms by (simp add: good_def opendir_of_def truthy_split_canon)

lemma walk_loop_good:
  assumes "list_all (good t) items"
  shows "\<exists>ys. walk_loop (opendir_of t) (map path_of items) out = Some (out @ ys, None)
              \<and> mset ys = (\<Sum>p\<leftarrow>items. mset (below (fst p) (snd p)))"
  using assms
proof (induction "sum_list (map (\<lambda>p. weight (snd p)) items)" arbitrary: items out rule: less_induct)
  case less
  show ?case
  proof (cases items)
    case Nil
    then show ?thesis by (simp add: walk_loop.simps)
  next
    case (Cons a rest)
    obtain cs n where a: "a = (cs, n)" by (cases a)
    from less.prems Cons a have g: "good t (cs, n)" and gr: "list_all (good t) rest" by simp_all
    from g obtain ch where n: "n = DirNode ch" by (cases n) (simp_all add: good_def)
    from g n have cs: "list_all valid_seg cs" and w: "wf_children ch" by (simp_all add: good_def)
    let ?items = "rev (pushes cs ch) @ rest"
    let ?out = "out @ map (entry_of cs) ch"
    have wd: "walk_dir (Path (canon cs False)) (map dirent_of ch) (map path_of rest) out
              = (map path_of ?items, ?out, None)"
      using walk_dir_children [OF cs, of ch] wf_children_names [OF w] by (simp add: rev_map)
    have step: "walk_loop (opendir_of t) (map path_of items) out
                = walk_loop (opendir_of t) (map path_of ?items) ?out"
      using opendir_of_good [of t cs ch] g n wd
      by (subst walk_loop.simps) (simp add: Cons a path_of_def)
    have "sum_list (map (\<lambda>p. weight (snd p)) ?items)
          < sum_list (map (\<lambda>p. weight (snd p)) items)"
      using weight_pushes [of cs ch] by (simp add: Cons a n rev_map [symmetric] sum_list_rev)
    moreover have "list_all (good t) ?items"
      using good_pushes [of t cs ch] g n gr by (auto simp: list_all_iff)
    ultimately obtain ys where ys:
      "walk_loop (opendir_of t) (map path_of ?items) ?out = Some (?out @ ys, None)"
      "mset ys = (\<Sum>p\<leftarrow>?items. mset (below (fst p) (snd p)))"
      using less.hyps [of ?items ?out] by blast
    have "mset (map (entry_of cs) ch @ ys) = (\<Sum>p\<leftarrow>items. mset (below (fst p) (snd p)))"
      using ys(2) below_list_mset [of cs ch]
      by (simp add: Cons a n rev_map [symmetric] sum_list_rev ac_simps)
    with ys(1) step show ?thesis by auto
  qed
qed

lemma length_below:
  "length (below cs n) = files_below n + dirs_below n"
  "length (below_list cs ch) = files_list ch + dirs_list ch"
  by (induction cs n and cs ch rule: below_below_list.induct) auto

lemma below_elem:
  "wf_node n \<Longrightarrow> list_all valid_seg cs \<Longrightarrow> x \<in> set (below cs n) \<Longrightarrow>
     \<exists>ss. ss \<noteq> [] \<and> list_all valid_seg ss \<and> fst x = Path (canon (cs @ ss) False)"
  "wf_children ch \<Longrightarrow> list_all valid_seg cs \<Longrightarrow> x \<in> set (below_list cs ch) \<Longrightarrow>
     \<exists>ss. ss \<noteq> [] \<and> hd ss \<in> fst ` set ch \<and> list_all valid_seg ss
          \<and> fst x = Path (canon (cs @ ss) False)"
proof (induction cs n and cs ch arbitrary: x and x rule: below_below_list.induct)
  case (1 cs)
  then show ?case by simp
next
  case (2 cs ch)
  from "2.prems" have "wf_children ch" "x \<in> set (below_list cs ch)" by simp_all
  from "2.IH" [OF this(1) "2.prems"(2) this(2)] show ?case by blast
next
  case (3 cs)
  then show ?case by simp
next
  case (4 cs n c ch)
  from "4.prems"(1) have n: "valid_seg n" and c: "wf_node c" and ch: "wf_children ch"
    by simp_all
  from "4.prems"(3) consider
      (here) "x = (Path (canon (cs @ [n]) False), Dirent n (kind_of c))"
    | (deep) "x \<in> set (below (cs @ [n]) c)"
    | (later) "x \<in> set (below_list cs ch)"
    by auto
  then show ?case
  proof cases
    case here
    then show ?thesis using n by (intro exI [of _ "[n]"]) simp
  next
    case deep
    have "list_all valid_seg (cs @ [n])" using "4.prems"(2) n by simp
    from "4.IH"(1) [OF c this deep] obtain ss where
      ss: "ss \<noteq> []" "list_all valid_seg ss" "fst x = Path (canon ((cs @ [n]) @ ss) False)"
      by blast
    then show ?thesis using n by (intro exI [of _ "n # ss"]) simp
  next
    case later
    from "4.IH"(2) [OF ch "4.prems"(2) later] show ?thesis by auto
  qed
qed

lemma canon_append_inj:
  assumes "list_all valid_seg cs" "list_all valid_seg xs" "list_all valid_seg ys"
    "canon (cs @ xs) False = canon (cs @ ys) False"
  shows "xs = ys"
proof -
  have "cs @ xs = cs @ ys"
    using assms by (intro canon_inj [of _ _ False False]) simp_all
  then show ?thesis by simp
qed

lemma distinct_below:
  "wf_node n \<Longrightarrow> list_all valid_seg cs \<Longrightarrow> distinct (map fst (below cs n))"
  "wf_children ch \<Longrightarrow> list_all valid_seg cs \<Longrightarrow> distinct (map fst (below_list cs ch))"
proof (induction cs n and cs ch rule: below_below_list.induct)
  case (1 cs)
  then show ?case by simp
next
  case (2 cs ch)
  then show ?case by simp
next
  case (3 cs)
  then show ?case by simp
next
  case (4 cs n c ch)
  from "4.prems"(1) have n: "valid_seg n" and c: "wf_node c" and ch: "wf_children ch"
    and fresh: "n \<notin> fst ` set ch" by simp_all
  have cs: "list_all valid_seg cs" by fact
  have csn: "list_all valid_seg (cs @ [n])" using cs n by simp
  let ?P = "Path (canon (cs @ [n]) False)"
  have a: "?P \<noteq> fst x" if "x \<in> set (below (cs @ [n]) c)" for x
  proof
    assume e: "?P = fst x"
    from below_elem(1) [OF c csn that] obtain ss where
      ss: "ss \<noteq> []" "list_all valid_seg ss" "fst x = Path (canon ((cs @ [n]) @ ss) False)"
      by blast
    have "[] = ss"
      using e ss csn by (intro canon_append_inj [of "cs @ [n]"]) simp_all
    with ss(1) show False by simp
  qed
  have b: "?P \<noteq> fst x" if "x \<in> set (below_list cs ch)" for x
  proof
    assume e: "?P = fst x"
    from below_elem(2) [OF ch cs that] obtain ss where
      ss: "ss \<noteq> []" "hd ss \<in> fst ` set ch" "list_all valid_seg ss"
        "fst x = Path (canon (cs @ ss) False)"
      by blast
    have "[n] = ss"
      using e ss cs n by (intro canon_append_inj [of cs]) simp_all
    with ss(2) fresh show False by force
  qed
  have d: "fst x \<noteq> fst y" if "x \<in> set (below (cs @ [n]) c)" "y \<in> set (below_list cs ch)" for x y
  proof
    assume e: "fst x = fst y"
    from below_elem(1) [OF c csn that(1)] obtain ss where
      ss: "ss \<noteq> []" "list_all valid_seg ss" "fst x = Path (canon ((cs @ [n]) @ ss) False)"
      by blast
    from below_elem(2) [OF ch cs that(2)] obtain ts where
      ts: "ts \<noteq> []" "hd ts \<in> fst ` set ch" "list_all valid_seg ts"
        "fst y = Path (canon (cs @ ts) False)"
      by blast
    have "n # ss = ts"
      using e ss ts cs n by (intro canon_append_inj [of cs]) simp_all
    with ts(2) fresh show False by force
  qed
  have a': "?P \<notin> fst ` set (below (cs @ [n]) c)" using a by blast
  have b': "?P \<notin> fst ` set (below_list cs ch)" using b by blast
  have d': "fst ` set (below (cs @ [n]) c) \<inter> fst ` set (below_list cs ch) = {}"
    using d by blast
  from "4.IH"(1) [OF c csn] "4.IH"(2) [OF ch cs] a' b' d'
  show ?case by simp
qed

lemma root_not_below:
  assumes "wf_node n" "list_all valid_seg cs"
  shows "Path (canon cs False) \<notin> fst ` set (below cs n)"
proof
  assume "Path (canon cs False) \<in> fst ` set (below cs n)"
  then obtain x where x: "x \<in> set (below cs n)" "fst x = Path (canon cs False)" by auto
  from below_elem(1) [OF assms x(1)] obtain ss where
    ss: "ss \<noteq> []" "list_all valid_seg ss" "fst x = Path (canon (cs @ ss) False)"
    by blast
  have "[] = ss"
    using x(2) ss assms(2) by (intro canon_append_inj [of cs]) simp_all
  with ss(1) show False by simp
qed

lemma lookup_wf: "wf_node t \<Longrightarrow> lookup t cs = Some n \<Longrightarrow> wf_node n"
proof (induction t cs rule: lookup.induct)
  case (1 n)
  then show ?case by simp
next
  case (2 s ss)
  then show ?case by simp
next
  case (3 ch s ss)
  from "3.prems"(2) obtain c where c: "map_of ch s = Some c" "lookup c ss = Some n"
    by (auto split: option.splits)
  then have "(s, c) \<in> set ch" by (simp add: map_of_SomeD)
  with "3.prems"(1) have "wf_node c" using wf_children_child by simp
  with "3.IH" c show ?case by simp
qed

lemma walk_loop_step:
  assumes "good t (cs, DirNode ch)"
  shows "walk_loop (opendir_of t) (Path (canon cs False) # stack) out
         = walk_loop (opendir_of t) (rev (map path_of (pushes cs ch)) @ stack)
             (out @ map (entry_of cs) ch)"
proof -
  from assms have cs: "list_all valid_seg cs" and w: "wf_children ch"
    by (simp_all add: good_def)
  have "walk_dir (Path (canon cs False)) (map dirent_of ch) stack out
        = (rev (map path_of (pushes cs ch)) @ stack, out @ map (entry_of cs) ch, None)"
    using walk_dir_children [OF cs, of ch] wf_children_names [OF w] by simp
  then show ?thesis
    using opendir_of_good [OF assms] by (subst walk_loop.simps) simp
qed

section \<open>Lemmas on relative\<close>

text \<open>
  The loop of \<open>relative\<close> does not end when both component lists run out together,
  which happens for a base that differs from the target by a trailing separator.
  Where the fast path's string test agrees with the components, joining the
  relative path onto the base gives the target back.
\<close>

lemma strip_common_diverges:
  assumes "strip_common xs ys = Some r"
  shows "xs \<noteq> [] \<or> ys \<noteq> []"
proof (rule strip_common.raw_induct [of "\<lambda>xs ys r. xs \<noteq> [] \<or> ys \<noteq> []" xs ys r])
  fix f :: "string list \<Rightarrow> string list \<Rightarrow> (string list \<times> string list) option"
    and a b y
  assume IH: "\<And>a b y. f a b = Some y \<Longrightarrow> a \<noteq> [] \<or> b \<noteq> []"
    and body: "(if head_eq a b then f (tl a) (tl b) else Some (a, b)) = Some y"
  show "a \<noteq> [] \<or> b \<noteq> []"
  proof (cases "head_eq a b")
    case True
    with body have "f (tl a) (tl b) = Some y" by simp
    from IH [OF this] show ?thesis by auto
  next
    case False
    then show ?thesis by (cases a; cases b) simp_all
  qed
next
  show "strip_common xs ys = Some r" by fact
qed

lemma strip_common_Nil: "strip_common [] [] = None"
  using strip_common_diverges [of "[]" "[]"] by (cases "strip_common [] []") auto

lemma relative_trailing_diverges:
  "new_Path ''/a'' = Inr (Path ''/a'') \<and> new_Path ''/a/'' = Inr (Path ''/a/'')
   \<and> relative (Path ''/a'') (Path ''/a/'') = None"
  by (simp add: new_Path_def normalize_def relative_def truthy_def sep_def
      strip_common.simps [of "_ # _"] strip_common_Nil)

lemma strip_common_prefix: "strip_common (c @ xs) (c @ ys) = strip_common xs ys"
  by (induction c) (simp_all add: strip_common.simps [of "_ # _"])

lemma strip_common_stop: "\<not> head_eq xs ys \<Longrightarrow> strip_common xs ys = Some (xs, ys)"
  by (subst strip_common.simps) simp

lemma common_prefix_split:
  "ts \<noteq> bs \<Longrightarrow> \<exists>c ts' bs'. ts = c @ ts' \<and> bs = c @ bs' \<and> \<not> head_eq ts' bs'"
proof (induction ts arbitrary: bs)
  case Nil
  then obtain b bs0 where "bs = b # bs0" by (cases bs) auto
  then have "[] = [] @ [] \<and> bs = [] @ (b # bs0) \<and> \<not> head_eq [] (b # bs0)" by simp
  then show ?case by (intro exI)
next
  case (Cons t ts)
  show ?case
  proof (cases bs)
    case Nil
    then have "t # ts = [] @ (t # ts) \<and> bs = [] @ [] \<and> \<not> head_eq (t # ts) []" by simp
    then show ?thesis by (intro exI)
  next
    case (Cons b bs0)
    show ?thesis
    proof (cases "t = b")
      case True
      with Cons Cons.prems have "ts \<noteq> bs0" by simp
      from Cons.IH [OF this] obtain c ts' bs' where
        "ts = c @ ts'" "bs0 = c @ bs'" "\<not> head_eq ts' bs'" by blast
      then have "t # ts = (t # c) @ ts' \<and> bs = (t # c) @ bs' \<and> \<not> head_eq ts' bs'"
        using True Cons by simp
      then show ?thesis by (intro exI)
    next
      case False
      then have "t # ts = [] @ (t # ts) \<and> bs = [] @ (b # bs0) \<and> \<not> head_eq (t # ts) (b # bs0)"
        using Cons by simp
      then show ?thesis by (intro exI)
    qed
  qed
qed

lemma normalizeString_push:
  "list_all valid_seg xs \<Longrightarrow>
   normalizeString False (xs @ rest) res = normalizeString False rest (rev xs @ res)"
  by (induction xs arbitrary: res) (auto simp: valid_seg_def)

lemma normalizeString_pop:
  "list_all valid_seg ys \<Longrightarrow>
   normalizeString False (replicate (length ys) ''..'' @ rest) (ys @ res)
   = normalizeString False rest res"
  by (induction ys) (auto simp: valid_seg_def)

lemma valid_nonempty: "list_all valid_seg xs \<Longrightarrow> list_all (\<lambda>x. x \<noteq> []) xs"
  by (induction xs) (simp_all add: valid_seg_def)

lemma dots_nonempty: "list_all (\<lambda>x. x \<noteq> []) (replicate k ''..'')"
  by (induction k) simp_all

lemma dots_no_sep: "list_all (\<lambda>x. sep \<notin> set x) (replicate k ''..'')"
  by (induction k) (simp_all add: sep_def)

lemma relative_segs_nonempty:
  assumes "list_all valid_seg ts'"
  shows "list_all (\<lambda>x. x \<noteq> []) (replicate k ''..'' @ ts')"
  using assms by (simp add: valid_nonempty dots_nonempty)

lemma relative_segs_no_sep:
  assumes "list_all valid_seg ts'"
  shows "list_all (\<lambda>x. sep \<notin> set x) (replicate k ''..'' @ ts')"
  using assms by (simp add: valid_no_sep dots_no_sep)

lemma relative_segs_hd:
  assumes "list_all valid_seg ts'" "k \<noteq> 0 \<or> ts' \<noteq> []"
  shows "hd (hd (replicate k ''..'' @ ts')) \<noteq> sep"
proof (cases k)
  case 0
  with assms obtain t ts0 where "ts' = t # ts0" by (cases ts') auto
  with assms 0 show ?thesis by (simp add: valid_seg_hd)
next
  case (Suc m)
  then show ?thesis by (simp add: sep_def)
qed

lemma relative_segs_last:
  assumes "list_all valid_seg ts'" "k \<noteq> 0 \<or> ts' \<noteq> []"
  shows "last (last (replicate k ''..'' @ ts')) \<noteq> sep"
proof (cases ts' rule: rev_cases)
  case Nil
  with assms obtain m where "k = Suc m" by (cases k) auto
  then have "last (replicate k ''..'') = ''..''" by simp
  with Nil show ?thesis by (simp add: sep_def)
next
  case (snoc ts0 t)
  with assms show ?thesis by (simp add: valid_seg_last)
qed

lemma join_relative_core:
  assumes c: "list_all valid_seg c" and bs': "list_all valid_seg bs'" and ts': "list_all valid_seg ts'"
  shows "join (Path (canon (c @ bs') False)) [join_sep (replicate (length bs') ''..'' @ ts')]
         = Inr (Path (canon (c @ ts') False))"
proof (cases "bs' = [] \<and> ts' = []")
  case True
  then show ?thesis by (simp add: join_def truthy_def)
next
  case False
  let ?R = "replicate (length bs') ''..'' @ ts'"
  let ?r = "join_sep ?R"
  let ?X = "canon (c @ bs') False @ sep # ?r"
  have k: "length bs' \<noteq> 0 \<or> ts' \<noteq> []" using False by simp
  have R: "?R \<noteq> []" using False by auto
  have ne: "list_all (\<lambda>x. x \<noteq> []) ?R" using ts' by (rule relative_segs_nonempty)
  have ns: "list_all (\<lambda>x. sep \<notin> set x) ?R" using ts' by (rule relative_segs_no_sep)
  have hdR: "hd (hd ?R) \<noteq> sep" using ts' k by (rule relative_segs_hd)
  have lastR: "last (last ?R) \<noteq> sep" using ts' k by (rule relative_segs_last)
  from join_sep_nonempty [OF R ne]
  have r: "?r \<noteq> []" "hd ?r \<noteq> sep" "last ?r \<noteq> sep" using hdR lastR by simp_all
  have sr: "split_sep ?r = ?R" using R ns by (rule split_join)
  have X: "?X \<noteq> []" "hd ?X = sep" by (simp_all add: canon_def)
  have lX: "last ?X \<noteq> sep" using r by simp
  have v: "list_all valid_seg (c @ bs')" using c bs' by simp
  have "split_sep ?X = split_sep (canon (c @ bs') False) @ ?R"
    by (simp only: split_sep_append sr)
  then have "filter (\<lambda>x. x \<noteq> [] \<and> x \<noteq> ''.'') (split_sep ?X) = (c @ bs') @ ?R"
    using v ts' by (auto simp: canon_split filter_id_conv list_all_iff valid_seg_def)
  then have "normalizeString False (split_sep ?X) []
             = normalizeString False ((c @ bs') @ ?R) []"
    using normalizeString_skip [of False "split_sep ?X" "[]"] by simp
  also have "\<dots> = normalizeString False ?R (rev bs' @ rev c)"
    using normalizeString_push [OF v, of ?R "[]"] by simp
  also have "\<dots> = normalizeString False ts' (rev c)"
    using normalizeString_pop [of "rev bs'" ts' "rev c"] bs' by simp
  also have "\<dots> = c @ ts'"
    using normalizeString_push [OF ts', of "[]" "rev c"] by simp
  finally have "normalize ?X = canon (c @ ts') False"
    using normalize_abs [OF X] lX by simp
  then have "new_Path ?X = Inr (Path (canon (c @ ts') False))"
    using X by (simp add: new_Path_def)
  then show ?thesis using r by (simp add: join_cases truthy_def)
qed

lemma relative_round_trip:
  assumes ts: "list_all valid_seg ts" and bs: "list_all valid_seg bs"
    and aligned: "prefix (canon bs False) (canon ts False) \<Longrightarrow> prefix bs ts"
  shows "\<exists>r. relative (Path (canon ts False)) (Path (canon bs False)) = Some r
             \<and> join (Path (canon bs False)) [r] = Inr (Path (canon ts False))"
proof (cases "prefix (canon bs False) (canon ts False)")
  case True
  from aligned [OF True] obtain rest where rest: "ts = bs @ rest" by (auto simp: prefix_def)
  with ts have vr: "list_all valid_seg rest" by simp
  have "relative (Path (canon ts False)) (Path (canon bs False)) = Some (join_sep rest)"
    using True ts bs by (simp add: relative_def truthy_split_canon rest)
  moreover have "join (Path (canon bs False)) [join_sep rest] = Inr (Path (canon ts False))"
    using join_relative_core [OF bs _ vr, of "[]"] by (simp add: rest)
  ultimately show ?thesis by blast
next
  case False
  then have "ts \<noteq> bs" by auto
  from common_prefix_split [OF this] obtain c ts' bs' where
    sp: "ts = c @ ts'" "bs = c @ bs'" "\<not> head_eq ts' bs'" by blast
  have v: "list_all valid_seg c" "list_all valid_seg ts'" "list_all valid_seg bs'"
    using ts bs sp by simp_all
  have "strip_common (''/'' # ts) (''/'' # bs) = strip_common ts' bs'"
    using strip_common_prefix [of "''/'' # c" ts' bs'] sp by simp
  then have "strip_common (''/'' # ts) (''/'' # bs) = Some (ts', bs')"
    using strip_common_stop [OF sp(3)] by simp
  then have "relative (Path (canon ts False)) (Path (canon bs False))
             = Some (join_sep (replicate (length bs') ''..'' @ ts'))"
    using False ts bs by (simp add: relative_def truthy_split_canon)
  moreover have "join (Path (canon bs False)) [join_sep (replicate (length bs') ''..'' @ ts')]
                 = Inr (Path (canon ts False))"
    using join_relative_core [OF v(1) v(3) v(2)] sp by simp
  ultimately show ?thesis by blast
qed

section \<open>Lemmas on moving with force\<close>

lemma stat_hops_unlink_file:
  "stat_hops n fs p = Inr Dir \<Longrightarrow> fs dst = Some (File c) \<Longrightarrow>
   stat_hops n (fs(dst := None)) p = Inr Dir"
proof (induction n arbitrary: p)
  case 0
  then show ?case by simp
next
  case (Suc n)
  show ?case
  proof (cases "p = dst")
    case True
    with Suc.prems show ?thesis by simp
  next
    case False
    with Suc show ?thesis by (auto split: option.splits entry.splits)
  qed
qed

lemma mv_force_file:
  assumes src: "fs src = Some (File c)" and dst: "fs dst = Some (File c')"
    and ne: "src \<noteq> dst" and dir: "statSync fs (dirname dst) = Inr Dir"
    and apart: "\<not> under src dst" "\<not> under dst src"
  shows "\<exists>fs'. mv fs (Path src) (To (Path dst)) True = Inr (fs', Path dst)
               \<and> fs' dst = Some (File c) \<and> fs' src = None"
proof -
  let ?fs1 = "fs(dst := None)"
  have e: "exists fs (Path dst) = Some (Path dst)"
    using exists_plain [of fs "Path dst" "File c'"] dst by simp
  have u: "unlinkSync fs dst = Inr ?fs1" using dst by (simp add: unlinkSync_def)
  have d1: "statSync ?fs1 (dirname dst) = Inr Dir"
    using dir dst unfolding statSync_def by (rule stat_hops_unlink_file)
  have r: "renameSync ?fs1 src dst = Inr (moved ?fs1 src dst)"
    using src ne apart(1) d1 by (simp add: renameSync_def)
  have "moved ?fs1 src dst dst = Some (File c)"
    using src ne by (simp add: moved_def under_def)
  moreover have "moved ?fs1 src dst src = None"
    using apart(2) by (simp add: moved_def) (simp add: under_def)
  ultimately show ?thesis using e u r by (simp add: mv_def mv_to_def)
qed

section \<open>The claims\<close>

text \<open>
  Claim C10. \<^verbatim>\<open>host()\<close> returns a record whose \<open>target\<close> is \<open>platform-arch\<close> and whose
  \<open>build_ids\<close> is the pair of platform and architecture; \<^verbatim>\<open>process.arch\<close> \<open>x64\<close> maps to
  \<open>x86-64\<close> and \<open>arm64\<close> to \<open>aarch64\<close>, any other architecture raises an error; a
  \<^verbatim>\<open>process.platform\<close> outside the supported enumeration falls back to \<open>linux\<close>.
\<close>

theorem host_spec:
  "(\<forall>r. host process_arch process_platform = Inr r \<longrightarrow>
        target r = platform r @ ''-'' @ arch r \<and> build_ids r = (platform r, arch r)
        \<and> platform r = (if process_platform \<in> set supported_platforms then process_platform else ''linux''))
   \<and> (process_arch = ''x64'' \<longrightarrow> (\<exists>r. host process_arch process_platform = Inr r \<and> arch r = ''x86-64''))
   \<and> (process_arch = ''arm64'' \<longrightarrow> (\<exists>r. host process_arch process_platform = Inr r \<and> arch r = ''aarch64''))
   \<and> (process_arch \<noteq> ''x64'' \<and> process_arch \<noteq> ''arm64'' \<longrightarrow>
        host process_arch process_platform = Inl (UnsupportedArch process_arch))"
  by (auto simp: host_def host_arch_def host_platform_def Let_def split: sum.splits)

theorem host_spec_witness:
  "\<exists>r. host ''x64'' ''plan9'' = Inr r \<and> arch r = ''x86-64'' \<and> platform r = ''linux''
       \<and> target r = ''linux-x86-64'' \<and> build_ids r = (''linux'', ''x86-64'')"
proof -
  from host_spec [of "''x64''" "''plan9''"]
  obtain r where r: "host ''x64'' ''plan9'' = Inr r" "arch r = ''x86-64''"
    by auto
  with host_spec [of "''x64''" "''plan9''"]
  have "target r = platform r @ ''-'' @ arch r" "build_ids r = (platform r, arch r)"
    "platform r = ''linux''"
    by (simp_all add: supported_platforms_def)
  with r show ?thesis by auto
qed

text \<open>
  Claim C7. Constructing a Path from a string fails with \<open>InvalidPath\<close> exactly when
  the string is empty or does not start with the separator, and otherwise holds the
  normalized string, which normalization leaves unchanged (it is canonical);
  \<^verbatim>\<open>Path.abs\<close> returns nothing exactly when construction fails and the constructed
  value otherwise.
\<close>

theorem new_Path_spec:
  "(input = [] \<or> hd input \<noteq> sep \<longrightarrow>
      new_Path input = Inl (InvalidPath input) \<and> Path_abs input = None)
   \<and> (input \<noteq> [] \<and> hd input = sep \<longrightarrow>
      new_Path input = Inr (Path (normalize input))
      \<and> Path_abs input = Some (Path (normalize input))
      \<and> normalize (normalize input) = normalize input)"
proof -
  have "normalize (normalize input) = normalize input" if a: "input \<noteq> []" "hd input = sep"
  proof -
    have "list_all (\<lambda>x. sep \<notin> set x) (split_sep input)"
      by (simp add: list_all_iff split_sep_no_sep)
    then have "list_all valid_seg (normalizeString False (split_sep input) [])"
      by (rule normalizeString_abs_valid) simp
    then show ?thesis by (simp add: normalize_abs [OF a] normalize_canon)
  qed
  then show ?thesis by (auto simp: new_Path_def Path_abs_def)
qed

theorem new_Path_spec_witness:
  "new_Path ''/a//b/./../c'' = Inr (Path ''/a/c'') \<and> Path_abs ''/a//b/./../c'' = Some (Path ''/a/c'')
   \<and> new_Path ''a/b'' = Inl (InvalidPath ''a/b'') \<and> Path_abs ''a/b'' = None
   \<and> new_Path [] = Inl (InvalidPath []) \<and> Path_abs [] = None"
  using new_Path_spec [of "''/a//b/./../c''"] new_Path_spec [of "''a/b''"] new_Path_spec [of "[]"]
  by (simp add: normalize_def sep_def)







text \<open>
  Claim C4 (round trip of \<open>relative\<close>), evaluated where the code breaks it. The fast
  path of \<open>relative\<close> tests whether the base's string is a prefix of the target's
  string, not whether its components are: from the base \<^verbatim>\<open>/a\<close> to the target \<^verbatim>\<open>/ab\<close>
  the relative path is the empty string, and joining it onto the base gives \<^verbatim>\<open>/a\<close>,
  not \<^verbatim>\<open>/ab\<close>.
\<close>

theorem relative_prefix_evaluation:
  "relative (Path ''/ab'') (Path ''/a'') = Some []
   \<and> join (Path ''/a'') [[]] = Inr (Path ''/a'')
   \<and> new_Path ''/ab'' = Inr (Path ''/ab'') \<and> new_Path ''/a'' = Inr (Path ''/a'')
   \<and> Path ''/a'' \<noteq> Path ''/ab''"
  by (simp add: relative_def truthy_def sep_def join_def new_Path_def normalize_def)

text \<open>
  Claim C1 (\<open>mv\<close> without \<open>force\<close> onto an existing destination fails with
  AlreadyExists), evaluated where the code breaks it. \<open>mv\<close> tests the destination only
  to unlink it under \<open>force\<close>; without \<open>force\<close> it goes on to \<^verbatim>\<open>renameSync\<close>, which
  replaces the file at the destination: the call returns the destination, whose
  content is now the source's, and the source is gone.
\<close>

theorem mv_without_force_evaluation:
  "(case mv (Map.empty(''/'' \<mapsto> Dir, ''/a'' \<mapsto> File ''x'', ''/b'' \<mapsto> File ''y''))
           (Path ''/a'') (To (Path ''/b'')) False of
      Inl err \<Rightarrow> False
    | Inr (fs', dst) \<Rightarrow> dst = Path ''/b'' \<and> fs' ''/b'' = Some (File ''x'') \<and> fs' ''/a'' = None)"
  by code_simp

text \<open>
  Claim C5 (\<open>mktemp\<close> with a directory returns a path inside that directory),
  evaluated where the code breaks it. With \<open>dir\<close> given, the input of \<^verbatim>\<open>mkdtempSync\<close> is
  the directory's string with no separator after it and the prefix is dropped: the
  directory \<^verbatim>\<open>/tmp/foo\<close> is created, and the temporary directory is its sibling
  \<^verbatim>\<open>/tmp/fooAbC123\<close>, whose parent is \<^verbatim>\<open>/tmp\<close>.
\<close>

theorem mktemp_dir_evaluation:
  "(case mktemp (Map.empty(''/'' \<mapsto> Dir, ''/tmp'' \<mapsto> Dir)) ''AbC123''
           \<lparr>prefix_opt = Some ''x'', dir_opt = Some (Path ''/tmp/foo'')\<rparr> of
      Inl err \<Rightarrow> False
    | Inr (fs', q) \<Rightarrow>
        q = Path ''/tmp/fooAbC123'' \<and> fs' ''/tmp/foo'' = Some Dir
        \<and> fs' ''/tmp/fooAbC123'' = Some Dir
        \<and> parent q = Inr (Path ''/tmp'') \<and> \<not> under ''/tmp/foo'' (string q))"
  by code_simp





text \<open>
  Claim C6. Let the filesystem be a well-formed finite tree and let the walk start at
  a directory of it, which holds \<open>N\<close> files and \<open>M\<close> directories below it. Then \<open>walk\<close>
  ends without an error, and what it yields is exactly the entries below the start,
  each once: \<open>N + M\<close> entries with distinct paths, the start itself not among them.
  Each step of the loop pops a directory, yields every child of it and pushes the
  children that are directories.
\<close>

theorem walk_spec:
  assumes "wf_node t" "list_all valid_seg cs" "lookup t cs = Some (DirNode ch)"
  shows "(\<exists>ys. walk (opendir_of t) (Path (canon cs False)) = Some (ys, None)
       \<and> mset ys = mset (below cs (DirNode ch))
       \<and> length ys = files_below (DirNode ch) + dirs_below (DirNode ch)
       \<and> distinct (map fst ys)
       \<and> Path (canon cs False) \<notin> fst ` set ys)
     \<and> (\<forall>stack out.
          walk_loop (opendir_of t) (Path (canon cs False) # stack) out
          = walk_loop (opendir_of t) (rev (map path_of (pushes cs ch)) @ stack)
              (out @ map (entry_of cs) ch))"
proof -
  have w: "wf_node (DirNode ch)" using assms(1,3) by (rule lookup_wf)
  then have g1: "good t (cs, DirNode ch)" using assms by (simp add: good_def)
  then have g: "list_all (good t) [(cs, DirNode ch)]" by simp
  from walk_loop_good [OF g, of "[]"] obtain ys where
    ys: "walk (opendir_of t) (Path (canon cs False)) = Some (ys, None)"
      "mset ys = mset (below cs (DirNode ch))"
    by (auto simp: walk_def path_of_def)
  from ys(2) have m: "mset (map fst ys) = mset (map fst (below cs (DirNode ch)))" by simp
  have 1: "length ys = files_below (DirNode ch) + dirs_below (DirNode ch)"
    using mset_eq_length [OF ys(2)] by (simp only: length_below)
  have 2: "distinct (map fst ys)"
    using mset_eq_imp_distinct_iff [OF m] distinct_below(1) [OF w assms(2)] by simp
  have "set ys = set (below cs (DirNode ch))" using ys(2) by (rule mset_eq_setD)
  then have 3: "Path (canon cs False) \<notin> fst ` set ys"
    using root_not_below [OF w assms(2)] by simp
  from ys 1 2 3 walk_loop_step [OF g1] show ?thesis by blast
qed

theorem walk_spec_witness:
  "walk (opendir_of (DirNode [(''a'', FileNode), (''d'', DirNode [(''x'', FileNode)]), (''e'', DirNode [])]))
      (Path ''/'')
   = Some ([(Path ''/a'', Dirent ''a'' KFile), (Path ''/d'', Dirent ''d'' KDir),
            (Path ''/e'', Dirent ''e'' KDir), (Path ''/d/x'', Dirent ''x'' KFile)], None)
   \<and> files_below (DirNode [(''a'', FileNode), (''d'', DirNode [(''x'', FileNode)]), (''e'', DirNode [])]) = 2
   \<and> dirs_below (DirNode [(''a'', FileNode), (''d'', DirNode [(''x'', FileNode)]), (''e'', DirNode [])]) = 2"
proof -
  let ?ch = "[(''a'', FileNode), (''d'', DirNode [(''x'', FileNode)]), (''e'', DirNode [])]"
  have w: "wf_node (DirNode ?ch)" by (simp add: valid_seg_def sep_def)
  have v: "list_all valid_seg []" by simp
  have l: "lookup (DirNode ?ch) [] = Some (DirNode ?ch)" by simp
  have c: "canon [] False = ''/''" by (simp add: canon_def sep_def)
  have e: "walk (opendir_of (DirNode ?ch)) (Path ''/'')
   = Some ([(Path ''/a'', Dirent ''a'' KFile), (Path ''/d'', Dirent ''d'' KDir),
            (Path ''/e'', Dirent ''e'' KDir), (Path ''/d/x'', Dirent ''x'' KFile)], None)"
    by code_simp
  from walk_spec [OF w v l] e show ?thesis by (simp add: c)
qed

end
